theory Spec2Isabelle
  imports Main
begin

section \<open>Values and records\<close>

text \<open>
  A line is decoded by \<^verbatim>\<open>json.Unmarshal\<close> into a \<^verbatim>\<open>map[string]interface{}\<close>. The values it
  can hold are \<^verbatim>\<open>nil\<close>, \<^verbatim>\<open>bool\<close>, \<^verbatim>\<open>float64\<close>, \<^verbatim>\<open>string\<close>, \<^verbatim>\<open>[]interface{}\<close> and
  \<^verbatim>\<open>map[string]interface{}\<close>. A \<^verbatim>\<open>float64\<close> is held as the text that \<^verbatim>\<open>%v\<close> prints for it
  (the shortest decimal that reads back as the same number), a nested object as its
  entries in the order of their keys, which is the order in which \<^verbatim>\<open>fmt\<close> prints them.
  Strings are byte strings.
\<close>

datatype jvalue =
    JNull
  | JBool bool
  | JNumber string
  | JString string
  | JList "jvalue list"
  | JObject "(string \<times> jvalue) list"

type_synonym jrecord = "string \<rightharpoonup> jvalue"

datatype panic = NilDereference | IntnArgument

datatype error = JsonError | UrlError | AddError | SendError

text \<open>\<^verbatim>\<open>strings.Join(elems, sep)\<close>.\<close>

fun strings_Join :: "string list \<Rightarrow> string \<Rightarrow> string" where
  "strings_Join [] sep = []"
| "strings_Join [x] sep = x"
| "strings_Join (x # y # ys) sep = x @ sep @ strings_Join (y # ys) sep"

text \<open>\<^verbatim>\<open>fmt.Sprintf("%v", v)\<close> on a decoded value.\<close>

fun Sprintf_v :: "jvalue \<Rightarrow> string" where
  "Sprintf_v JNull = ''<nil>''"
| "Sprintf_v (JBool b) = (if b then ''true'' else ''false'')"
| "Sprintf_v (JNumber s) = s"
| "Sprintf_v (JString s) = s"
| "Sprintf_v (JList xs) = ''['' @ strings_Join (map Sprintf_v xs) '' '' @ '']''"
| "Sprintf_v (JObject kvs) =
     ''map['' @ strings_Join (map (\<lambda>kv. fst kv @ '':'' @ Sprintf_v (snd kv)) kvs) '' '' @ '']''"

section \<open>The field normalizer: cleanData\<close>

text \<open>
  The result of \<^verbatim>\<open>urlshaper.Parser.Parse\<close>, with the fields that \<^verbatim>\<open>cleanData\<close> reads.
  \<^verbatim>\<open>QueryFields\<close> and \<^verbatim>\<open>PathFields\<close> are \<^verbatim>\<open>url.Values\<close>, maps from a name to a list of
  strings, held as the list of their entries in the order in which the \<^verbatim>\<open>range\<close> of lines
  175 and 180 gives them. The names of a map are distinct.
\<close>

record shaper_Result =
  URI :: string
  Path :: string
  Query :: string
  QueryFields :: "(string \<times> string list) list"
  PathFields :: "(string \<times> string list) list"
  PathShape :: string
  QueryShape :: string

text \<open>
  The assignments of lines 174 to 184, in their order, for the field \<open>k\<close> and the parse
  result \<open>res\<close>.
\<close>

definition add_url_fields :: "string \<Rightarrow> shaper_Result \<Rightarrow> jrecord \<Rightarrow> jrecord" where
  "add_url_fields k res data =
     (let d1 = data(k @ ''.path'' \<mapsto> JString (Path res));
          d2 = fold (\<lambda>pkv d. d(k @ ''.pathFields.'' @ fst pkv \<mapsto> JString (strings_Join (snd pkv) '','')))
                 (PathFields res) d1;
          d3 = d2(k @ ''.pathShape'' \<mapsto> JString (PathShape res));
          d4 = d3(k @ ''.query'' \<mapsto> JString (Query res));
          d5 = fold (\<lambda>qkv d. d(k @ ''.queryFields.'' @ fst qkv \<mapsto> JString (strings_Join (snd qkv) '','')))
                 (QueryFields res) d4;
          d6 = d5(k @ ''.queryShape'' \<mapsto> JString (QueryShape res))
      in d6(k @ ''.uri'' \<mapsto> JString (URI res)))"

text \<open>
  One pass of the body of the loop of line 156, for the key \<open>k\<close> and its value \<open>v\<close>.
  \<^verbatim>\<open>reflect.TypeOf(v)\<close> is the nil \<^verbatim>\<open>Type\<close> when \<open>v\<close> is nil, and the call of \<^verbatim>\<open>Kind\<close> on it
  is a nil dereference. Of the decoded values only \<^verbatim>\<open>[]interface{}\<close> has the kind
  \<^verbatim>\<open>Slice\<close>. The inner loop over \<^verbatim>\<open>urlFields\<close> ends at the \<^verbatim>\<open>break\<close> of line 187 in its
  first pass, and the string it parses is that of \<open>v\<close>, the value the \<^verbatim>\<open>range\<close> gave.
\<close>

definition clean_entry ::
  "string list \<Rightarrow> (string \<Rightarrow> error + shaper_Result) \<Rightarrow> string \<Rightarrow> jvalue \<Rightarrow> jrecord \<Rightarrow> panic + jrecord"
where
  "clean_entry urlFields shaper_Parse k v data =
     (case v of
        JNull \<Rightarrow> Inl NilDereference
      | _ \<Rightarrow>
          (let data1 = (case v of
                          JList sval \<Rightarrow> data(k \<mapsto> JString (strings_Join (map Sprintf_v sval) '',''))
                        | _ \<Rightarrow> data)
           in Inr (case urlFields of
                     [] \<Rightarrow> data1
                   | f # _ \<Rightarrow>
                       if k = f then
                         (case shaper_Parse (Sprintf_v v) of
                            Inr res \<Rightarrow> add_url_fields k res data1
                          | Inl err \<Rightarrow> data1)
                       else data1)))"

text \<open>
  \<^verbatim>\<open>cleanData\<close>. Go leaves the order of a \<^verbatim>\<open>range\<close> over a map open, and an entry added
  during the loop may be visited or not; \<open>ks\<close> is the sequence of keys the loop visits,
  and each pass reads the value the key has at that moment. A key that is not in the
  map when its turn comes is not produced.
\<close>

fun cleanData ::
  "string list \<Rightarrow> (string \<Rightarrow> error + shaper_Result) \<Rightarrow> string list \<Rightarrow> jrecord \<Rightarrow> panic + jrecord"
where
  "cleanData urlFields shaper_Parse [] data = Inr data"
| "cleanData urlFields shaper_Parse (k # ks) data =
     (case data k of
        None \<Rightarrow> cleanData urlFields shaper_Parse ks data
      | Some v \<Rightarrow>
          (case clean_entry urlFields shaper_Parse k v data of
             Inl p \<Rightarrow> Inl p
           | Inr data' \<Rightarrow> cleanData urlFields shaper_Parse ks data'))"

section \<open>The sampling key and the decision: determineSampleRate\<close>

text \<open>The seven bytes between the quotes of line 23.\<close>

definition KeySeperatorChar :: string where
  "KeySeperatorChar = [CHR 0xC3, CHR 0xA2, CHR 0xE2, CHR 0x82, CHR 0xAC, CHR 0xC2, CHR 0xA2]"

text \<open>
  The loop of lines 197 to 201: \<open>keys\<close> starts as \<^verbatim>\<open>len(samplingFields)\<close> empty strings, and
  the position \<open>i\<close> is assigned when the field is in the record. The index \<open>i\<close> stays
  below the length of \<open>keys\<close>.
\<close>

fun fill_keys :: "string list \<Rightarrow> jrecord \<Rightarrow> nat \<Rightarrow> string list \<Rightarrow> string list" where
  "fill_keys [] data i keys = keys"
| "fill_keys (field # rest) data i keys =
     fill_keys rest data (Suc i)
       (case data field of Some val \<Rightarrow> keys[i := Sprintf_v val] | None \<Rightarrow> keys)"

definition sample_key :: "string list \<Rightarrow> jrecord \<Rightarrow> string" where
  "sample_key samplingFields data =
     strings_Join (fill_keys samplingFields data 0 (replicate (length samplingFields) []))
       KeySeperatorChar"

text \<open>
  \<^verbatim>\<open>rand.Intn(n)\<close> panics when \<open>n \<le> 0\<close> and returns a number of \<open>[0, n)\<close> otherwise. The
  random source is a natural number \<open>src\<close>, brought into the range.
\<close>

definition rand_Intn :: "nat \<Rightarrow> int \<Rightarrow> panic + int" where
  "rand_Intn src n = (if n \<le> 0 then Inl IntnArgument else Inr (int src mod n))"

text \<open>
  \<^verbatim>\<open>determineSampleRate\<close>. \<open>GetSampleRate\<close> is the answer of the sampler at this call, \<open>src\<close>
  the random source of this call. The result is \<open>(rate, keep, key)\<close>.
\<close>

definition determineSampleRate ::
  "string list \<Rightarrow> (string \<Rightarrow> int) \<Rightarrow> nat \<Rightarrow> jrecord \<Rightarrow> panic + (int \<times> bool \<times> string)"
where
  "determineSampleRate samplingFields GetSampleRate src data =
     (let key = sample_key samplingFields data;
          rate0 = GetSampleRate key;
          rate = (if rate0 < 1 then 1 else rate0)
      in case rand_Intn src rate of
           Inl p \<Rightarrow> Inl p
         | Inr r \<Rightarrow> Inr (rate, r = 0, key))"

text \<open>
  The key as the specification words it: one position for each configured field, in
  order, the string of the field when it is present and the empty string when it is
  absent, joined with the separator.
\<close>

definition key_position :: "jrecord \<Rightarrow> string \<Rightarrow> string" where
  "key_position data field = (case data field of Some val \<Rightarrow> Sprintf_v val | None \<Rightarrow> [])"

definition key_spec :: "string list \<Rightarrow> jrecord \<Rightarrow> string" where
  "key_spec fs data = strings_Join (map (key_position data) fs) KeySeperatorChar"

section \<open>The ingestion loop: readNewData\<close>

definition MaxLineLength :: nat where
  "MaxLineLength = 65536"

text \<open>
  The lines of a body as \<^verbatim>\<open>bufio.ScanLines\<close> cuts them: each ends at a newline or at the
  end of the body, and an empty rest after the last newline is no line. \<open>acc\<close> holds the
  bytes of the line being read; the boolean tells whether a newline ended the line.
\<close>

primrec split_lines :: "string \<Rightarrow> string \<Rightarrow> (string \<times> bool) list" where
  "split_lines acc [] = (if acc = [] then [] else [(acc, False)])"
| "split_lines acc (c # cs) =
     (if c = CHR 0x0A then (acc, True) # split_lines [] cs else split_lines (acc @ [c]) cs)"

definition dropCR :: "string \<Rightarrow> string" where
  "dropCR line = (if line \<noteq> [] \<and> last line = CHR 0x0D then butlast line else line)"

text \<open>
  The buffer of line 106 has \<open>maxlen\<close> bytes and may not grow (line 107): when it is full
  and holds no newline, \<^verbatim>\<open>Scan\<close> sets \<^verbatim>\<open>ErrTooLong\<close> and returns false, for this call and
  every later one. A line followed by a newline fits when it has less than \<open>maxlen\<close>
  bytes. A last line without a newline of just \<open>maxlen\<close> bytes fills the buffer too; it is
  a token when the \<^verbatim>\<open>Read\<close> that brings its last bytes returns \<^verbatim>\<open>io.EOF\<close> with them
  (\<open>eof_with_data\<close>), since then \<^verbatim>\<open>Scan\<close> hands the buffer to the split function once
  more, and it is too long when \<^verbatim>\<open>io.EOF\<close> comes with a later, empty \<^verbatim>\<open>Read\<close>.
\<close>

definition fits :: "bool \<Rightarrow> nat \<Rightarrow> string \<times> bool \<Rightarrow> bool" where
  "fits eof_with_data maxlen line =
     (length (fst line) < maxlen
      \<or> (\<not> snd line \<and> eof_with_data \<and> length (fst line) = maxlen))"

text \<open>
  The tokens for which \<^verbatim>\<open>scanner.Scan()\<close> returns true: the lines before the first one that
  does not fit, each without its carriage return. The body is read without an I/O error.
\<close>

definition scanner_tokens :: "bool \<Rightarrow> nat \<Rightarrow> string \<Rightarrow> string list" where
  "scanner_tokens eof_with_data maxlen body =
     map (\<lambda>line. dropCR (fst line))
       (takeWhile (fits eof_with_data maxlen) (split_lines [] body))"

text \<open>
  What the handler gets from outside, besides the body: the configuration
  (\<open>samplingFields\<close>, \<open>urlFields\<close>), whether the reader of the body returns \<^verbatim>\<open>io.EOF\<close>
  with its last bytes, the decoder and the URL parser, and, for the line
  number \<open>i\<close> of the request, the order in which the \<^verbatim>\<open>range\<close> of \<^verbatim>\<open>cleanData\<close> visits the
  keys, the answer of the sampler, the random source, and whether \<^verbatim>\<open>ev.Add\<close> and
  \<^verbatim>\<open>ev.SendPresampled\<close> return an error.
\<close>

record env =
  eof_with_data :: bool
  samplingFields :: "string list"
  urlFields :: "string list"
  json_Unmarshal :: "string \<Rightarrow> error + jrecord"
  shaper_Parse :: "string \<Rightarrow> error + shaper_Result"
  range_order :: "nat \<Rightarrow> string list"
  GetSampleRate :: "nat \<Rightarrow> string \<Rightarrow> int"
  rand_source :: "nat \<Rightarrow> nat"
  ev_Add :: "nat \<Rightarrow> error option"
  ev_SendPresampled :: "nat \<Rightarrow> error option"

record counters =
  total :: nat
  success :: nat

text \<open>The body of the loop of line 111 for one token; a \<^verbatim>\<open>continue\<close> returns the counters.\<close>

definition process_line :: "env \<Rightarrow> counters \<Rightarrow> string \<Rightarrow> panic + counters" where
  "process_line e st rawData =
     (let i = total st;
          st1 = st\<lparr>total := total st + 1\<rparr>
      in case json_Unmarshal e rawData of
           Inl err \<Rightarrow> Inr st1
         | Inr data0 \<Rightarrow>
             (case cleanData (urlFields e) (shaper_Parse e) (range_order e i) data0 of
                Inl p \<Rightarrow> Inl p
              | Inr data \<Rightarrow>
                  (case determineSampleRate (samplingFields e) (GetSampleRate e i) (rand_source e i) data of
                     Inl p \<Rightarrow> Inl p
                   | Inr (rate, keep, key) \<Rightarrow>
                       if keep then
                         (case ev_Add e i of
                            Some err \<Rightarrow> Inr st1
                          | None \<Rightarrow>
                              (case ev_SendPresampled e i of
                                 Some err \<Rightarrow> Inr st1
                               | None \<Rightarrow> Inr (st1\<lparr>success := success st1 + 1\<rparr>)))
                       else Inr st1)))"

text \<open>The loop over the tokens; a panic ends it and the handler.\<close>

fun ingest :: "env \<Rightarrow> string list \<Rightarrow> counters \<Rightarrow> panic + counters" where
  "ingest e [] st = Inr st"
| "ingest e (rawData # rest) st =
     (case process_line e st rawData of
        Inl p \<Rightarrow> Inl p
      | Inr st' \<Rightarrow> ingest e rest st')"

text \<open>
  What the handler leaves when it returns: the status of line 149 and the two numbers of
  the summary of line 147.
\<close>

record response =
  status :: nat
  sampled :: nat
  lines :: nat

definition readNewData :: "env \<Rightarrow> string \<Rightarrow> panic + response" where
  "readNewData e body =
     (case ingest e (scanner_tokens (eof_with_data e) MaxLineLength body)
             \<lparr>total = 0, success = 0\<rparr> of
        Inl p \<Rightarrow> Inl p
      | Inr st \<Rightarrow> Inr \<lparr>status = 200, sampled = success st, lines = total st\<rparr>)"

section \<open>Notions used to state the properties\<close>

text \<open>A line decodes when \<^verbatim>\<open>json.Unmarshal\<close> returns no error for it.\<close>

definition decodes :: "env \<Rightarrow> string \<Rightarrow> bool" where
  "decodes e rawData = (case json_Unmarshal e rawData of Inl err \<Rightarrow> False | Inr data \<Rightarrow> True)"

text \<open>The value of a field after \<^verbatim>\<open>cleanData\<close>; there is none after a panic.\<close>

definition result_field :: "panic + jrecord \<Rightarrow> string \<Rightarrow> jvalue option" where
  "result_field r k = (case r of Inl p \<Rightarrow> None | Inr data \<Rightarrow> data k)"

text \<open>What line 165 stores for a value: the joined string for a list, the value otherwise.\<close>

definition flatten :: "jvalue \<Rightarrow> jvalue" where
  "flatten v =
     (case v of JList sval \<Rightarrow> JString (strings_Join (map Sprintf_v sval) '','') | _ \<Rightarrow> v)"

definition flatten_on :: "string list \<Rightarrow> jrecord \<Rightarrow> jrecord" where
  "flatten_on ks data = (\<lambda>x. if x \<in> set ks then map_option flatten (data x) else data x)"

text \<open>
  The fields that the URL decomposition writes for a record: those of the first entry of
  \<open>urlFields\<close>, when the loop visits it, the record has it and its string parses; none
  otherwise.
\<close>

definition url_enrichment ::
  "string list \<Rightarrow> (string \<Rightarrow> error + shaper_Result) \<Rightarrow> string list \<Rightarrow> jrecord \<Rightarrow> jrecord"
where
  "url_enrichment uf P ks data =
     (case uf of
        [] \<Rightarrow> Map.empty
      | f # _ \<Rightarrow>
          if f \<in> set ks then
            (case data f of
               None \<Rightarrow> Map.empty
             | Some v \<Rightarrow>
                 (case P (Sprintf_v v) of
                    Inl err \<Rightarrow> Map.empty
                  | Inr res \<Rightarrow> add_url_fields f res Map.empty))
          else Map.empty)"

section \<open>Inputs for the examples\<close>

text \<open>
  The answers of the URL parser and of the decoder on the strings of the examples. The
  parser is given the two URLs \<^verbatim>\<open>/x\<close> and \<^verbatim>\<open>/x/1?y=2\<close> and no other string. The decoder is
  given the empty object, an object with two fields, an object with a null field, and the
  line \<^verbatim>\<open>oops\<close>, which is not JSON, and no other line.
\<close>

definition example_Parse :: "string \<Rightarrow> error + shaper_Result" where
  "example_Parse s =
     (if s = ''/x'' then
        Inr \<lparr>URI = ''/x'', Path = ''/x'', Query = [], QueryFields = [], PathFields = [],
             PathShape = ''/x'', QueryShape = []\<rparr>
      else if s = ''/x/1?y=2'' then
        Inr \<lparr>URI = ''/x/1?y=2'', Path = ''/x/1'', Query = ''y=2'',
             QueryFields = [(''y'', [''2''])], PathFields = [],
             PathShape = ''/x/1'', QueryShape = ''y=?''\<rparr>
      else Inl UrlError)"

definition example_Unmarshal :: "string \<Rightarrow> error + jrecord" where
  \<open>example_Unmarshal rawData =
     (if rawData = ''{}'' then Inr Map.empty
      else if rawData = ''{"user":"a","path":"/x/1?y=2"}'' then
        Inr [''user'' \<mapsto> JString ''a'', ''path'' \<mapsto> JString ''/x/1?y=2'']
      else if rawData = ''{"a":null}'' then Inr [''a'' \<mapsto> JNull]
      else Inl JsonError)\<close>

text \<open>
  A sampler that answers 1 for every key, and a sink that refuses the line number 1 of a
  request. The \<^verbatim>\<open>range\<close> visits the keys that a record has in the order \<^verbatim>\<open>a\<close>, \<^verbatim>\<open>user\<close>,
  \<^verbatim>\<open>path\<close>.
\<close>

definition example_env :: env where
  "example_env =
     \<lparr>eof_with_data = True, samplingFields = [''user''], urlFields = [''path''],
      json_Unmarshal = example_Unmarshal, shaper_Parse = example_Parse,
      range_order = (\<lambda>i. [''a'', ''user'', ''path'']),
      GetSampleRate = (\<lambda>i key. 1), rand_source = (\<lambda>i. 0),
      ev_Add = (\<lambda>i. None),
      ev_SendPresampled = (\<lambda>i. if i = 1 then Some SendError else None)\<rparr>"

text \<open>A body made of the given lines, each ended by a newline.\<close>

definition body_of :: "string list \<Rightarrow> string" where
  "body_of ls = concat (map (\<lambda>l. l @ [CHR 0x0A]) ls)"

section \<open>The sampling key\<close>

lemma fill_keys_positions:
  "i + length fs = length keys \<Longrightarrow> (\<forall>j. i \<le> j \<and> j < length keys \<longrightarrow> keys ! j = []) \<Longrightarrow>
   fill_keys fs data i keys = take i keys @ map (key_position data) fs"
proof (induction fs arbitrary: i keys)
  case Nil
  then show ?case by simp
next
  case (Cons f rest)
  let ?keys' = "case data f of Some val \<Rightarrow> keys[i := Sprintf_v val] | None \<Rightarrow> keys"
  have len: "length ?keys' = length keys" by (simp split: option.split)
  have i_lt: "i < length keys" using Cons.prems(1) by simp
  have a: "Suc i + length rest = length ?keys'" using Cons.prems(1) len by simp
  have b: "\<forall>j. Suc i \<le> j \<and> j < length ?keys' \<longrightarrow> ?keys' ! j = []"
    using Cons.prems(2) by (auto split: option.split)
  have c: "take (Suc i) ?keys' = take i keys @ [key_position data f]"
    using i_lt Cons.prems(2)
    by (auto simp: take_Suc_conv_app_nth key_position_def split: option.split)
  show ?case using Cons.IH [OF a b] c by simp
qed

lemma sample_key_spec: "sample_key fs data = key_spec fs data"
  by (simp add: sample_key_def key_spec_def fill_keys_positions)

lemma key_spec_cong:
  assumes "\<forall>f \<in> set fs. d1 f = d2 f"
  shows "key_spec fs d1 = key_spec fs d2"
proof -
  have "map (key_position d1) fs = map (key_position d2) fs"
    using assms by (intro map_cong) (simp_all add: key_position_def)
  then show ?thesis by (simp only: key_spec_def)
qed

lemma determineSampleRate_total:
  "\<exists>rate keep key. determineSampleRate fs G src data = Inr (rate, keep, key)"
  by (simp add: determineSampleRate_def Let_def rand_Intn_def)

text \<open>
  Claim C8. The key that \<^verbatim>\<open>determineSampleRate\<close> returns is the join, with the separator,
  of one position for each configured field in order: the string of the field when the
  record has it, the empty string when it has not. Two records that agree on every
  configured field get the same key, and the same result from the same sampler answer
  and random source.
\<close>

theorem sampling_key_is_join_of_positions:
  "(\<exists>rate keep. determineSampleRate fs G src data = Inr (rate, keep, key_spec fs data))
   \<and> ((\<forall>f \<in> set fs. d1 f = d2 f) \<longrightarrow>
        key_spec fs d1 = key_spec fs d2
        \<and> determineSampleRate fs G src d1 = determineSampleRate fs G src d2)"
proof -
  have "\<exists>rate keep. determineSampleRate fs G src data = Inr (rate, keep, key_spec fs data)"
    by (simp add: determineSampleRate_def Let_def rand_Intn_def sample_key_spec)
  moreover have "determineSampleRate fs G src d1 = determineSampleRate fs G src d2"
    if "key_spec fs d1 = key_spec fs d2"
    using that by (simp add: determineSampleRate_def sample_key_spec)
  ultimately show ?thesis using key_spec_cong [of fs d1 d2] by blast
qed

text \<open>
  Two records that agree on \<^verbatim>\<open>user\<close> and \<^verbatim>\<open>host\<close>, one of them with a third field; \<^verbatim>\<open>host\<close>
  is absent from both.
\<close>

theorem sampling_key_is_join_of_positions_witness:
  "key_spec [''user'', ''host''] [''user'' \<mapsto> JString ''a'', ''n'' \<mapsto> JNumber ''1'']
     = ''a'' @ KeySeperatorChar
   \<and> key_spec [''user'', ''host''] [''user'' \<mapsto> JString ''a'']
     = key_spec [''user'', ''host''] [''user'' \<mapsto> JString ''a'', ''n'' \<mapsto> JNumber ''1'']
   \<and> determineSampleRate [''user'', ''host''] (\<lambda>key. 3) 7 [''user'' \<mapsto> JString ''a'']
     = determineSampleRate [''user'', ''host''] (\<lambda>key. 3) 7
         [''user'' \<mapsto> JString ''a'', ''n'' \<mapsto> JNumber ''1'']"
proof -
  have h: "\<forall>f \<in> set [''user'', ''host''].
             [''user'' \<mapsto> JString ''a''] f = [''user'' \<mapsto> JString ''a'', ''n'' \<mapsto> JNumber ''1''] f"
    by simp
  have k: "key_spec [''user'', ''host''] [''user'' \<mapsto> JString ''a'', ''n'' \<mapsto> JNumber ''1'']
            = ''a'' @ KeySeperatorChar"
    by (simp add: key_spec_def key_position_def)
  show ?thesis
    using sampling_key_is_join_of_positions
            [of "[''user'', ''host'']" "\<lambda>key. 3" 7 "[''user'' \<mapsto> JString ''a'']"
                "[''user'' \<mapsto> JString ''a'']" "[''user'' \<mapsto> JString ''a'', ''n'' \<mapsto> JNumber ''1'']"]
          h k
    by blast
qed

text \<open>
  Claim C9. \<^verbatim>\<open>determineSampleRate\<close> raises a rate below 1 to 1 and then keeps the record
  exactly when the draw \<open>r\<close> of \<^verbatim>\<open>rand.Intn(rate)\<close> is 0. The argument of the draw is at
  least 1, so the draw returns a number of \<open>[0, rate)\<close> and never panics, and with the
  rate 1 the record is kept.
\<close>

theorem decision_clamps_rate_and_draws:
  "\<exists>rate r. determineSampleRate fs G src data = Inr (rate, (r = 0), sample_key fs data)
     \<and> rate = max 1 (G (sample_key fs data)) \<and> 1 \<le> rate
     \<and> rand_Intn src rate = Inr r \<and> 0 \<le> r \<and> r < rate
     \<and> (rate = 1 \<longrightarrow> r = 0)"
  by (auto simp add: determineSampleRate_def Let_def rand_Intn_def max_def)

text \<open>A sampler that answers \<open>-5\<close>: the rate is 1 and the record is kept, whatever the source.\<close>

theorem decision_clamps_rate_and_draws_witness:
  "max 1 (- 5 :: int) = 1
   \<and> determineSampleRate [''user''] (\<lambda>key. - 5) 12345 [''user'' \<mapsto> JString ''a'']
       = Inr (1, True, ''a'')"
proof -
  obtain rate r :: int where
    d: "determineSampleRate [''user''] (\<lambda>key. - 5) 12345 [''user'' \<mapsto> JString ''a'']
          = Inr (rate, (r = 0), sample_key [''user''] [''user'' \<mapsto> JString ''a''])"
    and c: "rate = max 1 (- 5)" and k: "rate = 1 \<longrightarrow> r = 0"
    using decision_clamps_rate_and_draws
            [of "[''user'']" "\<lambda>key. - 5" 12345 "[''user'' \<mapsto> JString ''a'']"]
    by blast
  have "sample_key [''user''] [''user'' \<mapsto> JString ''a''] = ''a''"
    by (simp add: sample_key_def)
  then show ?thesis using d c k by simp
qed

text \<open>
  Claim C10. A record without the field \<open>f\<close> and the same record with \<open>f\<close> set to the empty
  string get the same key, and so the same result of \<^verbatim>\<open>determineSampleRate\<close>.
\<close>

theorem absent_field_and_empty_string_share_key:
  "sample_key fs (data(f := None)) = sample_key fs (data(f \<mapsto> JString []))
   \<and> determineSampleRate fs G src (data(f := None))
       = determineSampleRate fs G src (data(f \<mapsto> JString []))"
proof -
  have "key_position (data(f := None)) = key_position (data(f \<mapsto> JString []))"
    by (rule ext) (simp add: key_position_def)
  then have "sample_key fs (data(f := None)) = sample_key fs (data(f \<mapsto> JString []))"
    by (simp add: sample_key_spec key_spec_def)
  then show ?thesis by (simp add: determineSampleRate_def)
qed

section \<open>The field normalizer\<close>

subsection \<open>The fields written by the URL decomposition\<close>

lemma fold_upd_map_add:
  "fold (\<lambda>kv d. d(g kv \<mapsto> h kv)) xs (m ++ n) = m ++ fold (\<lambda>kv d. d(g kv \<mapsto> h kv)) xs n"
  by (induction xs arbitrary: n) (simp_all del: map_add_upd add: map_add_upd [symmetric])

lemma add_url_fields_map_add:
  "add_url_fields k res data = data ++ add_url_fields k res Map.empty"
proof -
  have "add_url_fields k res (data ++ Map.empty) = data ++ add_url_fields k res Map.empty"
    unfolding add_url_fields_def Let_def
    by (simp only: map_add_upd [symmetric] fold_upd_map_add)
  then show ?thesis by simp
qed

lemma fold_upd_JString:
  "(\<And>x v. n x = Some v \<Longrightarrow> \<exists>s. v = JString s) \<Longrightarrow>
   fold (\<lambda>kv d. d(g kv \<mapsto> JString (h kv))) xs n x = Some v \<Longrightarrow> \<exists>s. v = JString s"
proof (induction xs arbitrary: n)
  case Nil
  then show ?case by simp
next
  case (Cons a xs)
  show ?case
  proof (rule Cons.IH [of "n(g a \<mapsto> JString (h a))"])
    fix x v assume "(n(g a \<mapsto> JString (h a))) x = Some v"
    then show "\<exists>s. v = JString s" using Cons.prems(1) by (auto split: if_splits)
  next
    show "fold (\<lambda>kv d. d(g kv \<mapsto> JString (h kv))) xs (n(g a \<mapsto> JString (h a))) x = Some v"
      using Cons.prems(2) by (simp del: fun_upd_apply)
  qed
qed

lemma add_url_fields_JString:
  assumes "add_url_fields k res Map.empty x = Some v"
  shows "\<exists>s. v = JString s"
proof -
  let ?d1 = "Map.empty(k @ ''.path'' \<mapsto> JString (Path res))"
  let ?d2 = "fold (\<lambda>pkv d. d(k @ ''.pathFields.'' @ fst pkv \<mapsto> JString (strings_Join (snd pkv) '','')))
                 (PathFields res) ?d1"
  let ?d4 = "?d2(k @ ''.pathShape'' \<mapsto> JString (PathShape res), k @ ''.query'' \<mapsto> JString (Query res))"
  let ?d5 = "fold (\<lambda>qkv d. d(k @ ''.queryFields.'' @ fst qkv \<mapsto> JString (strings_Join (snd qkv) '','')))
                 (QueryFields res) ?d4"
  have s2: "\<exists>s. v = JString s" if "?d2 x = Some v" for x v
    using that by (rule fold_upd_JString [rotated]) (auto split: if_splits)
  have s4: "\<exists>s. v = JString s" if "?d4 x = Some v" for x v
    using that s2 by (auto split: if_splits)
  have s5: "\<exists>s. v = JString s" if "?d5 x = Some v" for x v
    using that by (rule fold_upd_JString [rotated]) (rule s4)
  show ?thesis using assms s5 unfolding add_url_fields_def Let_def
    by (auto split: if_splits)
qed

lemma fold_upd_other:
  "(\<forall>kv \<in> set xs. g kv \<noteq> x) \<Longrightarrow> fold (\<lambda>kv d. d(g kv \<mapsto> h kv)) xs m x = m x"
  by (induction xs arbitrary: m) auto

lemma fold_upd_found:
  "distinct (map fst xs) \<Longrightarrow> (n, vs) \<in> set xs \<Longrightarrow>
   fold (\<lambda>kv d. d(pre @ fst kv \<mapsto> h kv)) xs m (pre @ n) = Some (h (n, vs))"
proof (induction xs arbitrary: m)
  case Nil
  then show ?case by simp
next
  case (Cons a xs)
  show ?case
  proof (cases "a = (n, vs)")
    case True
    then have "\<forall>kv \<in> set xs. pre @ fst kv \<noteq> pre @ n" using Cons.prems(1) by force
    then have "fold (\<lambda>kv d. d(pre @ fst kv \<mapsto> h kv)) xs (m(pre @ n \<mapsto> h (n, vs))) (pre @ n)
               = (m(pre @ n \<mapsto> h (n, vs))) (pre @ n)"
      by (rule fold_upd_other)
    then show ?thesis using True by (simp del: fun_upd_apply) simp
  next
    case False
    then show ?thesis using Cons by simp
  qed
qed

lemma add_url_fields_values:
  fixes k :: string and res :: shaper_Result
  defines "d \<equiv> add_url_fields k res Map.empty"
  shows "d (k @ ''.path'') = Some (JString (Path res))"
    and "d (k @ ''.pathShape'') = Some (JString (PathShape res))"
    and "d (k @ ''.query'') = Some (JString (Query res))"
    and "d (k @ ''.queryShape'') = Some (JString (QueryShape res))"
    and "d (k @ ''.uri'') = Some (JString (URI res))"
    and "distinct (map fst (PathFields res)) \<Longrightarrow> (n, vs) \<in> set (PathFields res) \<Longrightarrow>
         d (k @ ''.pathFields.'' @ n) = Some (JString (strings_Join vs '',''))"
    and "distinct (map fst (QueryFields res)) \<Longrightarrow> (n, vs) \<in> set (QueryFields res) \<Longrightarrow>
         d (k @ ''.queryFields.'' @ n) = Some (JString (strings_Join vs '',''))"
proof -
  show "d (k @ ''.path'') = Some (JString (Path res))"
    unfolding d_def add_url_fields_def Let_def by (simp add: fold_upd_other)
  show "d (k @ ''.pathShape'') = Some (JString (PathShape res))"
    unfolding d_def add_url_fields_def Let_def by (simp add: fold_upd_other)
  show "d (k @ ''.query'') = Some (JString (Query res))"
    unfolding d_def add_url_fields_def Let_def by (simp add: fold_upd_other)
  show "d (k @ ''.queryShape'') = Some (JString (QueryShape res))"
    unfolding d_def add_url_fields_def Let_def by simp
  show "d (k @ ''.uri'') = Some (JString (URI res))"
    unfolding d_def add_url_fields_def Let_def by simp
  show "d (k @ ''.pathFields.'' @ n) = Some (JString (strings_Join vs '',''))"
    if "distinct (map fst (PathFields res))" "(n, vs) \<in> set (PathFields res)"
    using fold_upd_found [OF that, of "k @ ''.pathFields.''" "\<lambda>kv. JString (strings_Join (snd kv) '','')"]
    unfolding d_def add_url_fields_def Let_def by (simp add: fold_upd_other)
  show "d (k @ ''.queryFields.'' @ n) = Some (JString (strings_Join vs '',''))"
    if "distinct (map fst (QueryFields res))" "(n, vs) \<in> set (QueryFields res)"
    using fold_upd_found [OF that, of "k @ ''.queryFields.''" "\<lambda>kv. JString (strings_Join (snd kv) '','')"]
    unfolding d_def add_url_fields_def Let_def by simp
qed

lemma url_enrichment_JString:
  "url_enrichment uf P ks data x = Some v \<Longrightarrow> \<exists>s. v = JString s"
  by (auto simp: url_enrichment_def add_url_fields_JString
      split: list.splits if_splits option.splits sum.splits)

lemma url_enrichment_absent:
  "data k = None \<Longrightarrow> url_enrichment uf P (k # ks) data = url_enrichment uf P ks data"
  by (auto simp: url_enrichment_def split: list.splits option.splits)

subsection \<open>One pass and the whole loop\<close>

lemma flatten_JString [simp]: "flatten (JString s) = JString s"
  by (simp add: flatten_def)

lemma flatten_not_null: "v \<noteq> JNull \<Longrightarrow> flatten v \<noteq> JNull"
  by (cases v) (simp_all add: flatten_def)

lemma clean_entry_eq:
  assumes present: "data k = Some v" and nn: "v \<noteq> JNull"
  shows "clean_entry uf P k v data =
     Inr (data(k \<mapsto> flatten v) ++ url_enrichment uf P [k] (data(k \<mapsto> v)))"
proof -
  have d1: "(case v of JList sval \<Rightarrow> data(k \<mapsto> JString (strings_Join (map Sprintf_v sval) '','')) | _ \<Rightarrow> data)
            = data(k \<mapsto> flatten v)"
    using present by (cases v) (auto simp: flatten_def)
  show ?thesis
    using nn
    by (cases v; cases uf)
       (auto simp add: clean_entry_def d1 [simplified] flatten_def url_enrichment_def
          add_url_fields_map_add [of _ _ "data(k \<mapsto> _)"] add_url_fields_map_add [of _ _ data]
          present map_upd_triv
          split: sum.splits)
qed

text \<open>
  When the loop visits each key once and returns, the record is the old one with the
  visited lists joined, overridden by the fields of the URL decomposition. The order of
  the visits does not show in the result.
\<close>

lemma cleanData_char:
  "distinct ks \<Longrightarrow> cleanData uf P ks data = Inr data' \<Longrightarrow>
   data' = flatten_on ks data ++ url_enrichment uf P ks data"
proof (induction ks arbitrary: data)
  case Nil
  then show ?case by (simp add: flatten_on_def url_enrichment_def split: list.splits)
next
  case (Cons k ks)
  show ?case
  proof (cases "data k")
    case None
    then have "cleanData uf P ks data = Inr data'" using Cons.prems by simp
    then have "data' = flatten_on ks data ++ url_enrichment uf P ks data"
      using Cons.IH Cons.prems(1) by simp
    moreover have "flatten_on (k # ks) data = flatten_on ks data"
      using None by (auto simp: flatten_on_def)
    ultimately show ?thesis using None by (simp add: url_enrichment_absent)
  next
    case (Some v)
    then have nn: "v \<noteq> JNull" using Cons.prems(2) by (auto simp: clean_entry_def)
    let ?e = "url_enrichment uf P [k] (data(k \<mapsto> v))"
    let ?d = "data(k \<mapsto> flatten v) ++ ?e"
    have ce: "clean_entry uf P k v data = Inr ?d" using Some nn by (rule clean_entry_eq)
    then have "cleanData uf P ks ?d = Inr data'" using Cons.prems(2) Some by simp
    then have ih: "data' = flatten_on ks ?d ++ url_enrichment uf P ks ?d"
      using Cons.IH Cons.prems(1) by simp
    have kks: "k \<notin> set ks" using Cons.prems(1) by simp
    show ?thesis
    proof (cases "?e = Map.empty")
      case True
      then have d: "?d = data(k \<mapsto> flatten v)" by simp
      have e1: "url_enrichment uf P ks (data(k \<mapsto> flatten v)) = url_enrichment uf P ks data"
        using kks by (auto simp: url_enrichment_def split: list.splits)
      have e2: "url_enrichment uf P (k # ks) data = url_enrichment uf P ks data"
        using True Some kks
        by (auto simp: url_enrichment_def map_upd_triv
            split: list.splits option.splits sum.splits if_splits)
      have f: "flatten_on ks (data(k \<mapsto> flatten v)) = flatten_on (k # ks) data"
        using kks Some by (auto simp: flatten_on_def)
      show ?thesis using ih d e1 e2 f by simp
    next
      case False
      then obtain fs where uf: "uf = k # fs"
        by (auto simp: url_enrichment_def split: list.splits if_splits)
      have e1: "url_enrichment uf P ks ?d = Map.empty"
        using kks uf by (simp add: url_enrichment_def)
      have e2: "url_enrichment uf P (k # ks) data = ?e"
        using uf Some by (simp add: url_enrichment_def)
      have f: "flatten_on ks ?d = flatten_on (k # ks) data ++ ?e"
      proof (rule ext)
        fix x
        show "flatten_on ks ?d x = (flatten_on (k # ks) data ++ ?e) x"
        proof (cases "?e x")
          case None
          then show ?thesis using kks Some by (auto simp: flatten_on_def map_add_def)
        next
          case (Some w)
          then obtain s where "w = JString s" using url_enrichment_JString by blast
          then show ?thesis using Some by (simp add: flatten_on_def map_add_def)
        qed
      qed
      show ?thesis using ih e1 e2 f by simp
    qed
  qed
qed

text \<open>A record without a null value never makes the loop panic.\<close>

lemma cleanData_total:
  "(\<forall>x. data x \<noteq> Some JNull) \<Longrightarrow> \<exists>d. cleanData uf P ks data = Inr d"
proof (induction ks arbitrary: data)
  case Nil
  then show ?case by simp
next
  case (Cons k ks)
  show ?case
  proof (cases "data k")
    case None
    then show ?thesis using Cons by simp
  next
    case (Some v)
    then have nn: "v \<noteq> JNull" using Cons.prems by auto
    let ?e = "url_enrichment uf P [k] (data(k \<mapsto> v))"
    let ?d = "data(k \<mapsto> flatten v) ++ ?e"
    have ce: "clean_entry uf P k v data = Inr ?d" using Some nn by (rule clean_entry_eq)
    have "\<forall>x. ?d x \<noteq> Some JNull"
    proof
      fix x
      show "?d x \<noteq> Some JNull"
      proof (cases "?e x")
        case None
        then show ?thesis using Cons.prems flatten_not_null [OF nn] by (simp add: map_add_def)
      next
        case (Some w)
        then obtain s where "w = JString s" using url_enrichment_JString by blast
        then show ?thesis using Some by (simp add: map_add_def)
      qed
    qed
    then have "\<exists>d. cleanData uf P ks ?d = Inr d" by (rule Cons.IH)
    then show ?thesis using Some ce by simp
  qed
qed






subsection \<open>Null values\<close>

text \<open>
  Claim C3. The claim says that \<^verbatim>\<open>cleanData\<close> never panics, also on a field whose value
  is null. It does panic there: when the key that the loop visits holds the JSON null,
  \<^verbatim>\<open>reflect.TypeOf(v)\<close> is nil and \<^verbatim>\<open>Kind()\<close> dereferences it. The record decoded from
  \<^verbatim>\<open>{"a":null}\<close> is the first instance.
\<close>

theorem cleanData_panics_on_null:
  "cleanData uf P [''a''] [''a'' \<mapsto> JNull] = Inl NilDereference
   \<and> cleanData uf P (k # ks) (data(k \<mapsto> JNull)) = Inl NilDereference"
  by (simp add: clean_entry_def)

subsection \<open>Only the first URL field\<close>



subsection \<open>The derived fields\<close>

text \<open>
  Claim C2, as amended. When the loop visits each key once and returns, and the record
  has the first configured URL field with a string that parses, then the record holds
  \<^verbatim>\<open>.path\<close>, \<^verbatim>\<open>.pathShape\<close>, \<^verbatim>\<open>.query\<close>, \<^verbatim>\<open>.queryShape\<close>, \<^verbatim>\<open>.uri\<close> and one
  \<^verbatim>\<open>.pathFields.<name>\<close> and \<^verbatim>\<open>.queryFields.<name>\<close> for each name of the parse, with the
  values of the parse, whatever the record held under these names before. (The names of
  a \<^verbatim>\<open>url.Values\<close> map are distinct.)
\<close>

theorem first_url_field_is_decomposed:
  assumes "distinct ks" and "f \<in> set ks" and "data f = Some v" and "P (Sprintf_v v) = Inr res"
    and "cleanData (f # fs) P ks data = Inr data'"
    and "distinct (map fst (PathFields res))" and "distinct (map fst (QueryFields res))"
  shows "data' (f @ ''.path'') = Some (JString (Path res))
    \<and> data' (f @ ''.pathShape'') = Some (JString (PathShape res))
    \<and> data' (f @ ''.query'') = Some (JString (Query res))
    \<and> data' (f @ ''.queryShape'') = Some (JString (QueryShape res))
    \<and> data' (f @ ''.uri'') = Some (JString (URI res))
    \<and> (\<forall>(n, vs) \<in> set (PathFields res).
          data' (f @ ''.pathFields.'' @ n) = Some (JString (strings_Join vs '','')))
    \<and> (\<forall>(n, vs) \<in> set (QueryFields res).
          data' (f @ ''.queryFields.'' @ n) = Some (JString (strings_Join vs '','')))"
proof -
  have "data' = flatten_on ks data ++ url_enrichment (f # fs) P ks data"
    using assms(1,5) by (rule cleanData_char)
  moreover have "url_enrichment (f # fs) P ks data = add_url_fields f res Map.empty"
    using assms(2,3,4) by (simp add: url_enrichment_def)
  ultimately have w: "data' x = Some w" if "add_url_fields f res Map.empty x = Some w" for x w
    using that by simp
  show ?thesis
    using add_url_fields_values(1-5) [of f res]
      add_url_fields_values(6) [OF assms(6), of _ _ f]
      add_url_fields_values(7) [OF assms(7), of _ _ f]
    by (auto intro!: w)
qed

text \<open>
  A record with \<^verbatim>\<open>path\<close> and a \<^verbatim>\<open>path.query\<close> of its own, visited in two orders: after
  \<^verbatim>\<open>cleanData\<close> the field \<^verbatim>\<open>path.query\<close> is the query of the URL, and the query parameter
  \<^verbatim>\<open>y\<close> has its field.
\<close>

theorem first_url_field_is_decomposed_witness:
  "[''user'' \<mapsto> JString ''a'', ''path'' \<mapsto> JString ''/x/1?y=2'', ''path.query'' \<mapsto> JString ''old'']
     ''path.query'' = Some (JString ''old'')
   \<and> result_field (cleanData [''path''] example_Parse [''path.query'', ''user'', ''path'']
        [''user'' \<mapsto> JString ''a'', ''path'' \<mapsto> JString ''/x/1?y=2'', ''path.query'' \<mapsto> JString ''old''])
        ''path.query'' = Some (JString ''y=2'')
   \<and> result_field (cleanData [''path''] example_Parse [''path.query'', ''user'', ''path'']
        [''user'' \<mapsto> JString ''a'', ''path'' \<mapsto> JString ''/x/1?y=2'', ''path.query'' \<mapsto> JString ''old''])
        ''path.queryFields.y'' = Some (JString ''2'')"
proof -
  let ?data = "[''user'' \<mapsto> JString ''a'', ''path'' \<mapsto> JString ''/x/1?y=2'',
                ''path.query'' \<mapsto> JString ''old'']"
  let ?ks = "[''path.query'', ''user'', ''path'']"
  let ?res = "\<lparr>URI = ''/x/1?y=2'', Path = ''/x/1'', Query = ''y=2'',
                QueryFields = [(''y'', [''2''])], PathFields = [],
                PathShape = ''/x/1'', QueryShape = ''y=?''\<rparr>"
  have "\<forall>x. ?data x \<noteq> Some JNull" by simp
  then obtain data' where run: "cleanData [''path''] example_Parse ?ks ?data = Inr data'"
    using cleanData_total by blast
  have h1: "distinct ?ks" by simp
  have h2: "''path'' \<in> set ?ks" by simp
  have h3: "?data ''path'' = Some (JString ''/x/1?y=2'')" by simp
  have h4: "example_Parse (Sprintf_v (JString ''/x/1?y=2'')) = Inr ?res"
    by (simp add: example_Parse_def)
  have h6: "distinct (map fst (PathFields ?res))" by simp
  have h7: "distinct (map fst (QueryFields ?res))" by simp
  have "data' ''path.query'' = Some (JString ''y=2'')
        \<and> data' ''path.queryFields.y'' = Some (JString ''2'')"
    using first_url_field_is_decomposed [OF h1 h2 h3 h4 run h6 h7] by simp
  then show ?thesis unfolding run by (simp add: result_field_def)
qed

text \<open>
  The claim as it is written fails twice. A field \<^verbatim>\<open>url.path\<close> that the record had before
  is overwritten, in either order of the visits; and of two configured URL fields that
  both parse, the first gets its \<^verbatim>\<open>.path\<close> while the second, \<^verbatim>\<open>url\<close>, gets none, in either
  order of the visits.
\<close>

theorem derived_fields_counterexample:
  "[''url'' \<mapsto> JString ''/x'', ''url.path'' \<mapsto> JString ''keep''] ''url.path''
     = Some (JString ''keep'')
   \<and> result_field (cleanData [''url''] example_Parse [''url'', ''url.path'']
        [''url'' \<mapsto> JString ''/x'', ''url.path'' \<mapsto> JString ''keep'']) ''url.path''
     = Some (JString ''/x'')
   \<and> result_field (cleanData [''url''] example_Parse [''url.path'', ''url'']
        [''url'' \<mapsto> JString ''/x'', ''url.path'' \<mapsto> JString ''keep'']) ''url.path''
     = Some (JString ''/x'')
   \<and> result_field (cleanData [''ref'', ''url''] example_Parse [''ref'', ''url'']
        [''ref'' \<mapsto> JString ''/x'', ''url'' \<mapsto> JString ''/x/1?y=2'']) ''ref.path''
     = Some (JString ''/x'')
   \<and> result_field (cleanData [''ref'', ''url''] example_Parse [''ref'', ''url'']
        [''ref'' \<mapsto> JString ''/x'', ''url'' \<mapsto> JString ''/x/1?y=2'']) ''url.path''
     = None
   \<and> result_field (cleanData [''ref'', ''url''] example_Parse [''url'', ''ref'']
        [''ref'' \<mapsto> JString ''/x'', ''url'' \<mapsto> JString ''/x/1?y=2'']) ''ref.path''
     = Some (JString ''/x'')
   \<and> result_field (cleanData [''ref'', ''url''] example_Parse [''url'', ''ref'']
        [''ref'' \<mapsto> JString ''/x'', ''url'' \<mapsto> JString ''/x/1?y=2'']) ''url.path''
     = None"
  by (simp add: result_field_def clean_entry_def add_url_fields_def example_Parse_def Let_def)

subsection \<open>Lists\<close>

text \<open>
  Claim C6, as amended. When the loop visits each key once and returns, a visited field
  whose value was the list \<open>xs\<close> holds the strings of the elements of \<open>xs\<close> joined with
  a comma, unless its name is one of the fields that the URL decomposition writes for
  this record.
\<close>

theorem list_field_is_joined:
  assumes "distinct ks" and "k \<in> set ks" and "data k = Some (JList xs)"
    and "cleanData uf P ks data = Inr data'"
    and "url_enrichment uf P ks data k = None"
  shows "data' k = Some (JString (strings_Join (map Sprintf_v xs) '',''))"
proof -
  have "data' = flatten_on ks data ++ url_enrichment uf P ks data"
    using assms(1,4) by (rule cleanData_char)
  then show ?thesis using assms(2,3,5) by (simp add: map_add_def flatten_on_def flatten_def)
qed

text \<open>A list of a string, a number and a boolean, beside a URL field that parses.\<close>

theorem list_field_is_joined_witness:
  "url_enrichment [''path''] example_Parse [''path'', ''tags'']
      [''path'' \<mapsto> JString ''/x'', ''tags'' \<mapsto> JList [JString ''a'', JNumber ''1.5'', JBool True]]
      ''tags'' = None
   \<and> result_field (cleanData [''path''] example_Parse [''path'', ''tags'']
      [''path'' \<mapsto> JString ''/x'', ''tags'' \<mapsto> JList [JString ''a'', JNumber ''1.5'', JBool True]])
      ''tags'' = Some (JString ''a,1.5,true'')"
proof -
  let ?data = "[''path'' \<mapsto> JString ''/x'',
                ''tags'' \<mapsto> JList [JString ''a'', JNumber ''1.5'', JBool True]]"
  let ?ks = "[''path'', ''tags'']"
  have "\<forall>x. ?data x \<noteq> Some JNull" by simp
  then obtain data' where run: "cleanData [''path''] example_Parse ?ks ?data = Inr data'"
    using cleanData_total by blast
  have h1: "distinct ?ks" by simp
  have h2: "''tags'' \<in> set ?ks" by simp
  have h3: "?data ''tags'' = Some (JList [JString ''a'', JNumber ''1.5'', JBool True])" by simp
  have h5: "url_enrichment [''path''] example_Parse ?ks ?data ''tags'' = None"
    by (simp add: url_enrichment_def example_Parse_def add_url_fields_def)
  have "data' ''tags'' = Some (JString ''a,1.5,true'')"
    using list_field_is_joined [OF h1 h2 h3 run h5] by simp
  then show ?thesis using h5 unfolding run by (simp add: result_field_def)
qed

text \<open>
  The claim as it is written fails for a list under a name that the URL decomposition
  writes: after \<^verbatim>\<open>cleanData\<close> the field holds the path of the URL, in either order of
  the visits, and not \<^verbatim>\<open>a,b,c\<close>.
\<close>

theorem list_field_counterexample:
  "result_field (cleanData [''url''] example_Parse [''url'', ''url.path'']
      [''url'' \<mapsto> JString ''/x'', ''url.path'' \<mapsto> JList [JString ''a'', JString ''b'', JString ''c'']])
      ''url.path'' = Some (JString ''/x'')
   \<and> result_field (cleanData [''url''] example_Parse [''url.path'', ''url'']
      [''url'' \<mapsto> JString ''/x'', ''url.path'' \<mapsto> JList [JString ''a'', JString ''b'', JString ''c'']])
      ''url.path'' = Some (JString ''/x'')
   \<and> strings_Join (map Sprintf_v [JString ''a'', JString ''b'', JString ''c'']) '','' = ''a,b,c''"
  by (simp add: result_field_def clean_entry_def add_url_fields_def example_Parse_def Let_def)

section \<open>The ingestion loop\<close>

subsection \<open>The scanner\<close>

lemma split_lines_newline:
  "split_lines acc (pre @ CHR 0x0A # ys) = split_lines acc (pre @ [CHR 0x0A]) @ split_lines [] ys"
  by (induction pre arbitrary: acc) simp_all

lemma split_lines_pending:
  "acc \<noteq> [] \<Longrightarrow>
   \<exists>l t ls. split_lines acc rest = (l, t) # ls \<and> length acc \<le> length l
     \<and> (rest \<noteq> [] \<longrightarrow> t \<or> length acc < length l)"
proof (induction rest arbitrary: acc)
  case Nil
  then show ?case by auto
next
  case (Cons c rest)
  show ?case
  proof (cases "c = CHR 0x0A")
    case True
    then show ?thesis by auto
  next
    case False
    have "\<exists>l t ls. split_lines (acc @ [c]) rest = (l, t) # ls \<and> length (acc @ [c]) \<le> length l
            \<and> (rest \<noteq> [] \<longrightarrow> t \<or> length (acc @ [c]) < length l)"
      by (rule Cons.IH) simp
    then show ?thesis using False by auto
  qed
qed

lemma split_lines_long:
  "CHR 0x0A \<notin> set big \<Longrightarrow> acc @ big \<noteq> [] \<Longrightarrow>
   \<exists>l t ls. split_lines acc (big @ rest) = (l, t) # ls \<and> length acc + length big \<le> length l
     \<and> (rest \<noteq> [] \<longrightarrow> t \<or> length acc + length big < length l)"
proof (induction big arbitrary: acc)
  case Nil
  then show ?case using split_lines_pending [of acc rest] by simp
next
  case (Cons c big)
  have "\<exists>l t ls. split_lines (acc @ [c]) (big @ rest) = (l, t) # ls
          \<and> length (acc @ [c]) + length big \<le> length l
          \<and> (rest \<noteq> [] \<longrightarrow> t \<or> length (acc @ [c]) + length big < length l)"
    using Cons.prems by (intro Cons.IH) simp_all
  then show ?case using Cons.prems(1) by auto
qed

lemma takeWhile_stop: "\<not> Q l \<Longrightarrow> takeWhile Q (xs @ l # ls) = takeWhile Q xs"
  by (induction xs) simp_all

lemma scanner_tokens_too_long:
  assumes "pre = [] \<or> last pre = CHR 0x0A" and "CHR 0x0A \<notin> set big" and "maxlen \<le> length big"
    and "rest \<noteq> [] \<or> maxlen < length big" and "0 < maxlen"
  shows "scanner_tokens eofd maxlen (pre @ big @ rest) = scanner_tokens eofd maxlen pre"
proof -
  from assms(3,5) have "[] @ big \<noteq> []" by auto
  with assms(2) obtain l t ls where l: "split_lines [] (big @ rest) = (l, t) # ls"
    "length big \<le> length l" "rest \<noteq> [] \<longrightarrow> t \<or> length big < length l"
    using split_lines_long [of big "[]" rest] by auto
  have sp: "split_lines [] (pre @ big @ rest) = split_lines [] pre @ (l, t) # ls"
  proof (cases "pre = []")
    case True
    then show ?thesis using l by simp
  next
    case False
    then obtain p where p: "pre = p @ [CHR 0x0A]" using assms(1)
      by (metis append_butlast_last_id)
    show ?thesis using split_lines_newline [of "[]" p "big @ rest"] l by (simp add: p)
  qed
  have "\<not> fits eofd maxlen (l, t)" using l(2,3) assms(3,4) by (auto simp: fits_def)
  then show ?thesis unfolding scanner_tokens_def sp by (simp add: takeWhile_stop)
qed

lemma readNewData_too_long:
  assumes "pre = [] \<or> last pre = CHR 0x0A" and "CHR 0x0A \<notin> set big"
    and "MaxLineLength \<le> length big" and "rest \<noteq> [] \<or> MaxLineLength < length big"
  shows "readNewData e (pre @ big @ rest) = readNewData e pre"
proof -
  have "scanner_tokens (eof_with_data e) MaxLineLength (pre @ big @ rest)
        = scanner_tokens (eof_with_data e) MaxLineLength pre"
    using assms by (rule scanner_tokens_too_long) (simp add: MaxLineLength_def)
  then show ?thesis by (simp only: readNewData_def)
qed

subsection \<open>The counters\<close>

lemma process_line_malformed:
  "json_Unmarshal e l = Inl err \<Longrightarrow> process_line e st l = Inr (st\<lparr>total := total st + 1\<rparr>)"
  by (simp add: process_line_def)

lemma process_line_counts:
  assumes "process_line e st l = Inr st'"
  shows "total st' = total st + 1 \<and> success st' \<le> success st + (if decodes e l then 1 else 0)"
  using assms unfolding process_line_def Let_def decodes_def
  by (auto split: sum.splits if_splits option.splits prod.splits)

lemma ingest_counts:
  "ingest e ls st = Inr st' \<Longrightarrow>
   total st' = total st + length ls \<and> success st' \<le> success st + length (filter (decodes e) ls)"
proof (induction ls arbitrary: st)
  case Nil
  then show ?case by simp
next
  case (Cons l ls)
  then obtain st1 where s1: "process_line e st l = Inr st1" and s2: "ingest e ls st1 = Inr st'"
    by (auto split: sum.splits)
  from process_line_counts [OF s1] Cons.IH [OF s2] show ?case by auto
qed

lemma process_line_total:
  assumes "\<forall>data. json_Unmarshal e l = Inr data \<longrightarrow> (\<forall>k. data k \<noteq> Some JNull)"
  shows "\<exists>st'. process_line e st l = Inr st'"
proof (cases "json_Unmarshal e l")
  case (Inl err)
  then show ?thesis by (simp add: process_line_def)
next
  case (Inr data0)
  then have "\<forall>k. data0 k \<noteq> Some JNull" using assms by simp
  then obtain d where
    d: "cleanData (urlFields e) (shaper_Parse e) (range_order e (total st)) data0 = Inr d"
    using cleanData_total by blast
  obtain rate keep key where
    r: "determineSampleRate (samplingFields e) (GetSampleRate e (total st))
          (rand_source e (total st)) d = Inr (rate, keep, key)"
    using determineSampleRate_total by blast
  show ?thesis using Inr d r by (simp add: process_line_def Let_def split: option.split)
qed

lemma ingest_total:
  "(\<forall>l \<in> set ls. \<forall>data. json_Unmarshal e l = Inr data \<longrightarrow> (\<forall>k. data k \<noteq> Some JNull)) \<Longrightarrow>
   \<exists>st'. ingest e ls st = Inr st'"
proof (induction ls arbitrary: st)
  case Nil
  then show ?case by simp
next
  case (Cons l ls)
  then obtain st1 where "process_line e st l = Inr st1"
    using process_line_total [of e l st] by auto
  then show ?case using Cons by simp
qed

lemma example_run_short:
  "readNewData example_env (body_of [''{}''])
     = Inr \<lparr>status = 200, sampled = 1, lines = 1\<rparr>"
  by (simp add: readNewData_def scanner_tokens_def fits_def body_of_def MaxLineLength_def dropCR_def
      process_line_def example_env_def example_Unmarshal_def
      determineSampleRate_def rand_Intn_def Let_def)

lemma example_run_malformed:
  "readNewData example_env (body_of [''oops'', ''oops'', ''oops''])
     = Inr \<lparr>status = 200, sampled = 0, lines = 3\<rparr>"
  by (simp add: readNewData_def scanner_tokens_def fits_def body_of_def MaxLineLength_def dropCR_def
      process_line_def example_env_def example_Unmarshal_def Let_def)

subsection \<open>Lines that are too long\<close>

text \<open>
  Claim C1, as amended. A line of \<open>MaxLineLength\<close> bytes or more ends the scan: the tokens
  and the result of the handler are those of the body cut before that line. The line is
  not counted, and no later line is scanned; the lines before it are counted and
  processed. (\<open>pre\<close> is the part of the body before the line and \<open>big\<close> the start of the
  line: \<open>MaxLineLength\<close> bytes or more without a newline, with something after them, or
  more than \<open>MaxLineLength\<close> bytes.)
\<close>

theorem too_long_line_ends_the_scan:
  assumes "pre = [] \<or> last pre = CHR 0x0A" and "CHR 0x0A \<notin> set big"
    and "MaxLineLength \<le> length big" and "rest \<noteq> [] \<or> MaxLineLength < length big"
  shows "scanner_tokens (eof_with_data e) MaxLineLength (pre @ big @ rest)
           = scanner_tokens (eof_with_data e) MaxLineLength pre
    \<and> readNewData e (pre @ big @ rest) = readNewData e pre"
  using assms scanner_tokens_too_long [of pre big MaxLineLength rest "eof_with_data e"]
    readNewData_too_long [of pre big rest e]
  by (simp add: MaxLineLength_def)

text \<open>
  A line \<^verbatim>\<open>{}\<close>, then a line of 65536 bytes, then a line \<^verbatim>\<open>{}\<close>: one line is counted and
  sampled.
\<close>

theorem too_long_line_ends_the_scan_witness:
  "last (body_of [''{}'']) = CHR 0x0A
   \<and> CHR 0x0A \<notin> set (replicate 65536 (CHR ''x''))
   \<and> MaxLineLength \<le> length (replicate 65536 (CHR ''x''))
   \<and> readNewData example_env
        (body_of [''{}''] @ replicate 65536 (CHR ''x'') @ CHR 0x0A # body_of [''{}''])
       = Inr \<lparr>status = 200, sampled = 1, lines = 1\<rparr>"
proof -
  have h1: "body_of [''{}''] = [] \<or> last (body_of [''{}'']) = CHR 0x0A"
    by (simp add: body_of_def)
  have h1': "last (body_of [''{}'']) = CHR 0x0A" by (simp add: body_of_def)
  have h2: "CHR 0x0A \<notin> set (replicate 65536 (CHR ''x''))" by simp
  have h3: "MaxLineLength \<le> length (replicate 65536 (CHR ''x''))"
    by (simp add: MaxLineLength_def)
  have h4: "CHR 0x0A # body_of [''{}''] \<noteq> []
            \<or> MaxLineLength < length (replicate 65536 (CHR ''x''))"
    by simp
  have eq: "readNewData example_env
              (body_of [''{}''] @ replicate 65536 (CHR ''x'') @ CHR 0x0A # body_of [''{}''])
            = readNewData example_env (body_of [''{}''])"
    using too_long_line_ends_the_scan [OF h1 h2 h3 h4, of example_env]
    by blast
  show ?thesis unfolding eq example_run_short using h1' h2 h3 by blast
qed

text \<open>
  The claim as it is written fails: of a line of 65537 bytes and a line \<^verbatim>\<open>{}\<close> after it,
  none is counted, while the line \<^verbatim>\<open>{}\<close> alone is counted and sampled.
\<close>

theorem too_long_line_counterexample:
  "readNewData example_env (replicate 65537 (CHR ''a'') @ CHR 0x0A # body_of [''{}''])
     = Inr \<lparr>status = 200, sampled = 0, lines = 0\<rparr>
   \<and> readNewData example_env (body_of [''{}''])
     = Inr \<lparr>status = 200, sampled = 1, lines = 1\<rparr>"
proof -
  have "readNewData example_env ([] @ replicate 65537 (CHR ''a'') @ CHR 0x0A # body_of [''{}''])
          = readNewData example_env []"
    by (rule readNewData_too_long) (simp_all add: MaxLineLength_def)
  moreover have "readNewData example_env [] = Inr \<lparr>status = 200, sampled = 0, lines = 0\<rparr>"
    by (simp add: readNewData_def scanner_tokens_def)
  ultimately show ?thesis using example_run_short by simp
qed

subsection \<open>Lines that do not decode\<close>

text \<open>
  Claim C4, as amended. A line that does not decode adds one to \<open>total\<close>, leaves
  \<open>success\<close> as it is, and the loop goes on with the next line. When the handler returns,
  \<open>total\<close> is the number of the scanned lines and \<open>success\<close> is at most the number of
  the scanned lines that decode: ten scanned lines with three that do not decode give
  \<open>total = 10\<close> and \<open>success \<le> 7\<close>. (The lines from the first too long one on are not
  scanned.)
\<close>

theorem malformed_line_is_counted_and_skipped:
  "(json_Unmarshal e l = Inl err \<longrightarrow>
      process_line e st l = Inr (st\<lparr>total := total st + 1\<rparr>)
      \<and> ingest e (l # ls) st = ingest e ls (st\<lparr>total := total st + 1\<rparr>))
   \<and> (readNewData e body = Inr r \<longrightarrow>
        lines r = length (scanner_tokens (eof_with_data e) MaxLineLength body)
        \<and> sampled r
            \<le> length (filter (decodes e) (scanner_tokens (eof_with_data e) MaxLineLength body)))"
proof -
  have "lines r = length (scanner_tokens (eof_with_data e) MaxLineLength body)
        \<and> sampled r
            \<le> length (filter (decodes e) (scanner_tokens (eof_with_data e) MaxLineLength body))"
    if "readNewData e body = Inr r"
  proof -
    from that obtain st where
      i: "ingest e (scanner_tokens (eof_with_data e) MaxLineLength body)
            \<lparr>total = 0, success = 0\<rparr> = Inr st"
      and r: "r = \<lparr>status = 200, sampled = success st, lines = total st\<rparr>"
      by (auto simp: readNewData_def split: sum.splits)
    from ingest_counts [OF i] r show ?thesis by simp
  qed
  then show ?thesis by (simp add: process_line_malformed)
qed

text \<open>
  Ten lines, three of them not JSON. The sampler keeps every record, and the line that
  the sink would refuse is one of the three.
\<close>

theorem malformed_line_is_counted_and_skipped_witness:
  "json_Unmarshal example_env ''oops'' = Inl JsonError
   \<and> readNewData example_env
        (body_of [''{}'', ''oops'', ''{}'', ''{}'', ''oops'', ''{}'', ''{}'', ''oops'', ''{}'', ''{}''])
       = Inr \<lparr>status = 200, sampled = 7, lines = 10\<rparr>
   \<and> length (scanner_tokens (eof_with_data example_env) MaxLineLength
        (body_of [''{}'', ''oops'', ''{}'', ''{}'', ''oops'', ''{}'', ''{}'', ''oops'', ''{}'', ''{}'']))
       = 10
   \<and> 7 \<le> length (filter (decodes example_env) (scanner_tokens (eof_with_data example_env) MaxLineLength
        (body_of [''{}'', ''oops'', ''{}'', ''{}'', ''oops'', ''{}'', ''{}'', ''oops'', ''{}'', ''{}''])))"
proof -
  let ?body = "body_of [''{}'', ''oops'', ''{}'', ''{}'', ''oops'', ''{}'', ''{}'', ''oops'', ''{}'', ''{}'']"
  let ?r = "\<lparr>status = 200, sampled = 7, lines = 10\<rparr>"
  have dec: "json_Unmarshal example_env ''oops'' = Inl JsonError"
    by (simp add: example_env_def example_Unmarshal_def)
  have run: "readNewData example_env ?body = Inr ?r"
    by (simp add: readNewData_def scanner_tokens_def fits_def body_of_def MaxLineLength_def dropCR_def
        process_line_def example_env_def example_Unmarshal_def
        clean_entry_def determineSampleRate_def rand_Intn_def Let_def)
  have "lines ?r = length (scanner_tokens (eof_with_data example_env) MaxLineLength ?body)
        \<and> sampled ?r \<le> length (filter (decodes example_env) (scanner_tokens (eof_with_data example_env) MaxLineLength ?body))"
    using malformed_line_is_counted_and_skipped [of example_env "''oops''" JsonError _ _ ?body ?r]
      dec run
    by blast
  then show ?thesis using dec run by simp
qed

text \<open>
  The claim as it is written fails for a body of ten lines, three of them not JSON, whose
  fourth line is an object of more than 65536 bytes: \<open>total\<close> is 3.
\<close>

theorem ten_line_batch_counterexample:
  \<open>readNewData example_env
     (body_of [''oops'', ''oops'', ''oops'']
      @ (''{"a":"'' @ replicate 65536 (CHR ''x'') @ ''"}'')
      @ CHR 0x0A # body_of [''{}'', ''{}'', ''{}'', ''{}'', ''{}'', ''{}''])
   = Inr \<lparr>status = 200, sampled = 0, lines = 3\<rparr>\<close>
proof -
  have \<open>readNewData example_env
     (body_of [''oops'', ''oops'', ''oops'']
      @ (''{"a":"'' @ replicate 65536 (CHR ''x'') @ ''"}'')
      @ CHR 0x0A # body_of [''{}'', ''{}'', ''{}'', ''{}'', ''{}'', ''{}''])
     = readNewData example_env (body_of [''oops'', ''oops'', ''oops''])\<close>
    by (rule readNewData_too_long) (simp_all add: MaxLineLength_def body_of_def)
  then show ?thesis by (simp only: example_run_malformed)
qed

subsection \<open>The status\<close>

text \<open>
  When no decoded record of a body holds a null value, the loop comes to its end and the
  handler answers 200, whatever the decoder, the URL parser, the sampler and the sink
  did on each line.
\<close>

lemma readNewData_without_null:
  assumes "\<forall>l \<in> set (scanner_tokens (eof_with_data e) MaxLineLength body).
             \<forall>data. json_Unmarshal e l = Inr data \<longrightarrow> (\<forall>k. data k \<noteq> Some JNull)"
  shows "\<exists>r. readNewData e body = Inr r \<and> status r = 200"
proof -
  obtain st' where
    "ingest e (scanner_tokens (eof_with_data e) MaxLineLength body)
       \<lparr>total = 0, success = 0\<rparr> = Inr st'"
    using ingest_total [OF assms] by blast
  then show ?thesis by (simp add: readNewData_def)
qed

text \<open>
  Four lines: one that is not JSON, one that the sink refuses, one whose URL field is
  decomposed, and one more. The status is 200.
\<close>

lemma example_run_with_errors:
  \<open>readNewData example_env
      (body_of [''oops'', ''{}'', ''{"user":"a","path":"/x/1?y=2"}'', ''{}''])
     = Inr \<lparr>status = 200, sampled = 2, lines = 4\<rparr>\<close>
  by (simp add: readNewData_def scanner_tokens_def fits_def body_of_def MaxLineLength_def
      dropCR_def process_line_def example_env_def example_Unmarshal_def example_Parse_def
      clean_entry_def add_url_fields_def determineSampleRate_def rand_Intn_def Let_def)

text \<open>
  Claim C5. The claim says that the handler answers 200 for every request, whatever
  happened on its lines. It does not for a body with a line whose record holds a null
  value: \<^verbatim>\<open>cleanData\<close> panics on that record, the handler ends there, and line 149, which
  writes the status, is not reached. This is so for the body of the one line
  \<^verbatim>\<open>{"a":null}\<close>, and for that line between two lines \<^verbatim>\<open>{}\<close>.
\<close>

theorem null_line_gets_no_status:
  \<open>readNewData example_env (body_of [''{"a":null}'']) = Inl NilDereference
   \<and> readNewData example_env (body_of [''{}'', ''{"a":null}'', ''{}'']) = Inl NilDereference\<close>
  by (simp add: readNewData_def scanner_tokens_def fits_def body_of_def MaxLineLength_def
      dropCR_def process_line_def example_env_def example_Unmarshal_def
      clean_entry_def determineSampleRate_def rand_Intn_def Let_def)

end
